theory Spec2Isabelle
  imports Main
begin

section \<open>The in-memory database of \<open>src/main.py\<close>\<close>

text \<open>
  The program is one Python class, \<open>IMDB\<close>, driven by a read-eval-print loop. Its state is
  four fields: \<open>state\<close> (\<open>None\<close> or \<open>'END'\<close>), the dictionary \<open>db\<close> from keys to values,
  the list \<open>transactions\<close> of open \<open>Transaction\<close> objects (outermost first) and the
  dictionary \<open>counts\<close> from values to integers. Dictionaries are maps, Python's unbounded
  integers are \<open>int\<close>, and a raised exception is the \<open>Inl\<close> branch of a sum.
\<close>

subsection \<open>Data\<close>

text \<open>The event tuples \<open>('SET', key, value)\<close> and \<open>('DELETE', key)\<close>.\<close>

datatype event = SET string string | DELETE string

text \<open>Class \<open>Transaction\<close>: nothing but the list of its events, in append order.\<close>

datatype transaction = Transaction (get_events: "event list")

definition add_event :: "event \<Rightarrow> transaction \<Rightarrow> transaction" where
  "add_event e t = Transaction (get_events t @ [e])"

record imdb =
  state :: "string option"
  db :: "string \<rightharpoonup> string"
  transactions :: "transaction list"
  counts :: "string \<rightharpoonup> int"

text \<open>\<open>IMDB.__init__\<close>.\<close>

definition init :: imdb where
  "init = \<lparr>state = None, db = Map.empty, transactions = [], counts = Map.empty\<rparr>"

text \<open>
  The exceptions the program can raise: \<open>KeyError\<close> from \<open>self.counts[...]\<close> in
  \<open>IMDB.set\<close> (with the missing key), and \<open>EOFError\<close> from \<open>input\<close> when the input ends.
\<close>

datatype error = KeyError string | EOFError

subsection \<open>The committed store\<close>

text \<open>\<open>IMDB.get\<close>: \<open>self.db.get(key, "NULL")\<close>.\<close>

definition get :: "string \<Rightarrow> imdb \<Rightarrow> string" where
  "get key s = (case db s key of None \<Rightarrow> ''NULL'' | Some v \<Rightarrow> v)"

text \<open>
  \<open>IMDB.set\<close>. The guard \<open>if self.db.get(key):\<close> is a truthiness test: it fails for a
  missing key and also for a key that holds the empty string. \<open>self.counts[old] -= 1\<close>
  reads \<open>self.counts[old]\<close> first and raises \<open>KeyError\<close> when \<open>old\<close> is not a key of
  \<open>counts\<close>; nothing has been written at that point.
\<close>

definition set_imdb :: "string \<Rightarrow> string \<Rightarrow> imdb \<Rightarrow> error + imdb" where
  "set_imdb key value s =
     (case (case db s key of
              None \<Rightarrow> Inr (counts s)
            | Some old \<Rightarrow>
                if old = [] then Inr (counts s)
                else (case counts s old of
                        None \<Rightarrow> Inl (KeyError old)
                      | Some n \<Rightarrow> Inr ((counts s)(old \<mapsto> n - 1)))) of
        Inl e \<Rightarrow> Inl e
      | Inr cs \<Rightarrow>
          Inr (s\<lparr>counts := (case cs value of
                               Some n \<Rightarrow> cs(value \<mapsto> n + 1)
                             | None \<Rightarrow> cs(value \<mapsto> 1)),
                  db := (db s)(key \<mapsto> value)\<rparr>))"

text \<open>
  \<open>IMDB.delete\<close>. For a missing key \<open>value\<close> is \<open>None\<close>, which is never a key of
  \<open>counts\<close>, so nothing is decremented.
\<close>

definition delete :: "string \<Rightarrow> imdb \<Rightarrow> imdb" where
  "delete key s =
     s\<lparr>counts := (case db s key of
                     None \<Rightarrow> counts s
                   | Some value \<Rightarrow>
                       (case counts s value of
                          None \<Rightarrow> counts s
                        | Some n \<Rightarrow> (counts s)(value \<mapsto> n - 1))),
        db := (if key \<in> dom (db s) then (db s)(key := None) else db s)\<rparr>"

text \<open>\<open>IMDB.count\<close>: \<open>self.counts.get(value, 0)\<close>.\<close>

definition count :: "string \<Rightarrow> imdb \<Rightarrow> int" where
  "count value s = (case counts s value of None \<Rightarrow> 0 | Some n \<Rightarrow> n)"

text \<open>\<open>IMDB.end\<close>.\<close>

definition end_imdb :: "imdb \<Rightarrow> imdb" where
  "end_imdb s = s\<lparr>state := Some ''END''\<rparr>"

subsection \<open>Reading through the open transactions\<close>

text \<open>
  \<open>IMDB.txn_get\<close> returns \<open>str | None\<close>, here \<open>string option\<close>. The two loops run over the
  reversed lists and return from inside; the loop functions give \<open>Some r\<close> when the loop
  returned \<open>r\<close> and \<open>None\<close> when it ran to its end.
\<close>

fun txn_get_events :: "string \<Rightarrow> event list \<Rightarrow> string option option" where
  "txn_get_events key [] = None"
| "txn_get_events key (DELETE k # es) =
     (if k = key then Some None else txn_get_events key es)"
| "txn_get_events key (SET k v # es) =
     (if k = key then Some (Some v) else txn_get_events key es)"

fun txn_get_txns :: "string \<Rightarrow> transaction list \<Rightarrow> string option option" where
  "txn_get_txns key [] = None"
| "txn_get_txns key (txn # ts) =
     (case txn_get_events key (rev (get_events txn)) of
        Some r \<Rightarrow> Some r
      | None \<Rightarrow> txn_get_txns key ts)"

definition txn_get :: "string \<Rightarrow> imdb \<Rightarrow> string option" where
  "txn_get key s =
     (let current_value = get key s
      in case txn_get_txns key (rev (transactions s)) of
           Some r \<Rightarrow> r
         | None \<Rightarrow> Some current_value)"

text \<open>
  \<open>IMDB.txn_count\<close>. The loop state is \<open>current_count\<close> and the set \<open>keys\<close>; one event
  is one step of the \<open>if\<close>/\<open>elif\<close> chain.
\<close>

fun txn_count_event :: "string \<Rightarrow> event \<Rightarrow> int \<times> string set \<Rightarrow> int \<times> string set" where
  "txn_count_event value (SET k v) (current_count, keys) =
     (if k \<in> keys \<and> v \<noteq> value then (current_count - 1, keys - {k})
      else if k \<notin> keys \<and> v = value then (current_count + 1, insert k keys)
      else (current_count, keys))"
| "txn_count_event value (DELETE k) (current_count, keys) =
     (if k \<in> keys then (current_count - 1, keys - {k})
      else (current_count, keys))"

definition txn_count_loop :: "string \<Rightarrow> transaction list \<Rightarrow> int \<times> string set \<Rightarrow> int \<times> string set" where
  "txn_count_loop value ts = fold (\<lambda>t. fold (txn_count_event value) (get_events t)) ts"

definition txn_count :: "string \<Rightarrow> imdb \<Rightarrow> int" where
  "txn_count value s = fst (txn_count_loop value (transactions s) (count value s, {}))"

subsection \<open>Commit\<close>

text \<open>
  \<open>IMDB.apply_transactions\<close> writes \<open>self.db\<close> itself: it calls neither \<open>self.set\<close> nor
  \<open>self.delete\<close> and never touches \<open>self.counts\<close>.
\<close>

fun apply_event :: "event \<Rightarrow> imdb \<Rightarrow> imdb" where
  "apply_event (SET key value) s = s\<lparr>db := (db s)(key \<mapsto> value)\<rparr>"
| "apply_event (DELETE key) s =
     (if key \<in> dom (db s) then s\<lparr>db := (db s)(key := None)\<rparr> else s)"

definition apply_transactions :: "imdb \<Rightarrow> imdb" where
  "apply_transactions s = fold (\<lambda>t. fold apply_event (get_events t)) (transactions s) s"

subsection \<open>The string methods the dispatcher uses\<close>

text \<open>
  Command lines are taken to be ASCII. \<open>isspace\<close> is Python's whitespace among the ASCII
  characters (tab, line feed, vertical tab, form feed, carriage return, the four
  separators \<open>0x1C\<close> to \<open>0x1F\<close> and the space); \<open>upper\<close> maps \<open>a\<close> to \<open>z\<close> onto \<open>A\<close> to \<open>Z\<close>.
\<close>

definition isspace :: "char \<Rightarrow> bool" where
  "isspace c = (c \<in> set [CHR 0x09, CHR 0x0A, CHR 0x0B, CHR 0x0C, CHR 0x0D,
                          CHR 0x1C, CHR 0x1D, CHR 0x1E, CHR 0x1F, CHR 0x20])"

definition upper_char :: "char \<Rightarrow> char" where
  "upper_char c =
     (case map_of (zip ''abcdefghijklmnopqrstuvwxyz'' ''ABCDEFGHIJKLMNOPQRSTUVWXYZ'') c of
        Some u \<Rightarrow> u
      | None \<Rightarrow> c)"

definition upper :: "string \<Rightarrow> string" where
  "upper cs = map upper_char cs"

definition strip :: "string \<Rightarrow> string" where
  "strip cs = rev (dropWhile isspace (rev (dropWhile isspace cs)))"

definition startswith :: "string \<Rightarrow> string \<Rightarrow> bool" where
  "startswith cs p = (take (length p) cs = p)"

text \<open>
  \<open>str.split(None, maxsplit)\<close>: skip whitespace, cut a word, and repeat; once \<open>maxsplit\<close>
  cuts are made the rest of the line, less its leading whitespace, is the last part.
  \<open>str.split()\<close> has no limit; a line never has more words than characters.
\<close>

fun split_max :: "nat \<Rightarrow> string \<Rightarrow> string list" where
  "split_max 0 cs =
     (case dropWhile isspace cs of [] \<Rightarrow> [] | c # r \<Rightarrow> [c # r])"
| "split_max (Suc n) cs =
     (case dropWhile isspace cs of
        [] \<Rightarrow> []
      | c # r \<Rightarrow> takeWhile (\<lambda>x. \<not> isspace x) (c # r)
                 # split_max n (dropWhile (\<lambda>x. \<not> isspace x) (c # r)))"

definition split :: "string \<Rightarrow> string list" where
  "split cs = split_max (length cs) cs"

text \<open>\<open>str(n)\<close> for an integer, as the f-strings print it.\<close>

fun str_nat :: "nat \<Rightarrow> string" where
  "str_nat n =
     (if n < 10 then [''0123456789'' ! n]
      else str_nat (n div 10) @ [''0123456789'' ! (n mod 10)])"

declare str_nat.simps [simp del]

definition str_int :: "int \<Rightarrow> string" where
  "str_int i = (if i < 0 then CHR ''-'' # str_nat (nat (- i)) else str_nat (nat i))"

subsection \<open>The dispatcher\<close>

text \<open>
  \<open>IMDB.transition\<close>, branch by branch in the source's order. The result is the exception
  that escapes, or the new state with the lines printed. Only \<open>self.set\<close> can raise, and
  it does so before anything is printed or written.
\<close>

definition quoted :: "string \<Rightarrow> string" where
  "quoted cs = [CHR 0x27] @ cs @ [CHR 0x27]"

definition transition :: "string \<Rightarrow> imdb \<Rightarrow> error + imdb \<times> string list" where
  "transition command s =
     (if upper (strip command) = ''END'' then Inr (end_imdb s, [])
      else if startswith (upper (strip command)) ''GET'' then
        (case split (strip command) of
           [_, key] \<Rightarrow>
             if transactions s \<noteq> [] then
               (case txn_get key s of
                  None \<Rightarrow> Inr (s, [''>>> NULL''])
                | Some found_value \<Rightarrow>
                    if found_value \<noteq> [] then Inr (s, [''>>> '' @ found_value])
                    else Inr (s, [''>>> NULL'']))
             else Inr (s, [''>>> '' @ get key s])
         | _ \<Rightarrow> Inr (s, [''>>> Invalid GET command: '' @ quoted command
                           @ ''. Expected format: '' @ quoted ''GET <key>'']))
      else if startswith (upper (strip command)) ''SET'' then
        (case split_max 2 (strip command) of
           [_, key, value] \<Rightarrow>
             if transactions s \<noteq> [] then
               Inr (s\<lparr>transactions := butlast (transactions s)
                         @ [add_event (SET key value) (last (transactions s))]\<rparr>, [])
             else (case set_imdb key value s of
                     Inl e \<Rightarrow> Inl e
                   | Inr s' \<Rightarrow> Inr (s', []))
         | _ \<Rightarrow> Inr (s, [''>>> Invalid SET command: '' @ quoted command
                           @ ''. Expected format: '' @ quoted ''SET <key> <value>'']))
      else if startswith (upper (strip command)) ''DELETE'' then
        (case split command of
           [_, key] \<Rightarrow>
             if transactions s \<noteq> [] then
               Inr (s\<lparr>transactions := butlast (transactions s)
                         @ [add_event (DELETE key) (last (transactions s))]\<rparr>, [])
             else Inr (delete key s, [])
         | _ \<Rightarrow> Inr (s, [''>>> Invalid DELETE command: '' @ quoted command
                           @ ''. Expected format: '' @ quoted ''DELETE <key>'']))
      else if startswith (upper (strip command)) ''COUNT'' then
        (case split (strip command) of
           [_, value] \<Rightarrow>
             if transactions s \<noteq> [] then Inr (s, [''>>> '' @ str_int (txn_count value s)])
             else Inr (s, [''>>> '' @ str_int (count value s)])
         | _ \<Rightarrow> Inr (s, [''>>> Invalid COUNT command: '' @ quoted command
                           @ ''. Expected format: '' @ quoted ''COUNT <value>'']))
      else if upper (strip command) = ''BEGIN'' then
        Inr (s\<lparr>transactions := transactions s @ [Transaction []]\<rparr>, [])
      else if upper (strip command) = ''ROLLBACK'' then
        (if transactions s \<noteq> [] then Inr (s\<lparr>transactions := butlast (transactions s)\<rparr>, [])
         else Inr (s, [''>>> TRANSACTION NOT FOUND.'']))
      else if upper (strip command) = ''COMMIT'' then
        Inr ((apply_transactions s)\<lparr>transactions := []\<rparr>, [])
      else Inr (s, [''>>> Unknown command: '' @ quoted command]))"

text \<open>
  \<open>IMDB.run\<close> on the lines that \<open>input\<close> will deliver. The loop stops when \<open>state\<close> is
  \<open>'END'\<close>; \<open>input\<close> on exhausted input raises \<open>EOFError\<close>, and an exception of
  \<open>transition\<close> leaves the loop. Neither is caught (only \<open>KeyboardInterrupt\<close> is, which
  no input line produces); the \<open>finally\<close> clause prints its line either way. The result is
  what was printed, and either the final state or the exception that ends the process.
  The prompt that \<open>input\<close> writes is not part of the printed lines.
\<close>

fun run_loop :: "imdb \<Rightarrow> string list \<Rightarrow> string list \<times> (error + imdb)" where
  "run_loop s [] = (if state s \<noteq> Some ''END'' then ([], Inl EOFError) else ([], Inr s))"
| "run_loop s (command # rest) =
     (if state s \<noteq> Some ''END'' then
        (case transition command s of
           Inl e \<Rightarrow> ([], Inl e)
         | Inr (s', out) \<Rightarrow> (case run_loop s' rest of (out', r) \<Rightarrow> (out @ out', r)))
      else ([], Inr s))"

definition run :: "imdb \<Rightarrow> string list \<Rightarrow> string list \<times> (error + imdb)" where
  "run s inputs = (case run_loop s inputs of (out, r) \<Rightarrow> (out @ [''>>> Bye!''], r))"


subsection \<open>Notions the properties are stated with\<close>

text \<open>
  The calls \<open>self.transition(c)\<close> for the lines of \<open>cs\<close>, one after another, as the loop
  of \<open>run\<close> makes them while \<open>state\<close> is not \<open>'END'\<close>: the first exception ends the
  sequence, otherwise the printed lines are collected.
\<close>

fun transitions :: "string list \<Rightarrow> imdb \<Rightarrow> error + imdb \<times> string list" where
  "transitions [] s = Inr (s, [])"
| "transitions (c # cs) s =
     (case transition c s of
        Inl e \<Rightarrow> Inl e
      | Inr (s', out) \<Rightarrow>
          (case transitions cs s' of
             Inl e \<Rightarrow> Inl e
           | Inr (s'', out') \<Rightarrow> Inr (s'', out @ out')))"

text \<open>
  A line that \<open>transition\<close> sends to its \<open>SET\<close> or its \<open>DELETE\<close> branch. No such line
  passes the earlier tests for \<open>END\<close> and \<open>GET\<close>.
\<close>

definition is_write :: "string \<Rightarrow> bool" where
  "is_write command =
     (startswith (upper (strip command)) ''SET''
      \<or> startswith (upper (strip command)) ''DELETE'')"

text \<open>
  All events of the open transactions in chronological order: outermost transaction
  first, append order within a transaction.
\<close>

definition chronological :: "imdb \<Rightarrow> event list" where
  "chronological s = concat (map get_events (transactions s))"

text \<open>The key an event is about, and the latest event about a key in a sequence.\<close>

fun event_key :: "event \<Rightarrow> string" where
  "event_key (SET k v) = k"
| "event_key (DELETE k) = k"

text \<open>What \<open>txn_get\<close> returns when it stops at an event.\<close>

fun event_value :: "event \<Rightarrow> string option" where
  "event_value (SET k v) = Some v"
| "event_value (DELETE k) = None"

definition latest_event :: "string \<Rightarrow> event list \<Rightarrow> event option" where
  "latest_event key es =
     (case filter (\<lambda>e. event_key e = key) es of
        [] \<Rightarrow> None
      | e # r \<Rightarrow> Some (last (e # r)))"

text \<open>
  The specification's reading of a commit: the events applied to the store one by one
  through \<open>set\<close> and \<open>delete\<close>, as the dispatcher does for a write with no transaction open.
\<close>

fun apply_direct :: "event list \<Rightarrow> imdb \<Rightarrow> error + imdb" where
  "apply_direct [] s = Inr s"
| "apply_direct (SET key value # es) s =
     (case set_imdb key value s of
        Inl e \<Rightarrow> Inl e
      | Inr s' \<Rightarrow> apply_direct es s')"
| "apply_direct (DELETE key # es) s = apply_direct es (delete key s)"

text \<open>The number of keys whose committed value is \<open>value\<close>.\<close>

definition holders :: "string \<Rightarrow> imdb \<Rightarrow> string set" where
  "holders value s = {k. db s k = Some value}"

text \<open>
  The counts index agrees with the entries: every value's count is the number of keys that
  hold it, every stored value is a key of \<open>counts\<close>, and no key holds the empty string.
\<close>

definition counts_match :: "imdb \<Rightarrow> bool" where
  "counts_match s =
     (finite (dom (db s))
      \<and> (\<forall>v. count v s = int (card (holders v s)))
      \<and> ran (db s) \<subseteq> dom (counts s)
      \<and> [] \<notin> ran (db s))"

section \<open>Properties\<close>

subsection \<open>The speculative count never falls below the committed count\<close>

lemma card_remove_int:
  assumes "finite A" and "x \<in> A"
  shows "int (card A - Suc 0) = int (card A) - 1"
proof -
  from assms have "0 < card A" by (auto simp: card_gt_0_iff)
  then show ?thesis by simp
qed

text \<open>
  One step of the loop keeps \<open>current_count - |keys|\<close>: a decrement removes a key from
  \<open>keys\<close>, an increment adds one that was not there.
\<close>

lemma txn_count_event_inv:
  assumes "txn_count_event value e (c, keys) = (c', keys')" and "finite keys"
  shows "finite keys' \<and> c' - int (card keys') = c - int (card keys)"
  using assms by (cases e) (auto split: if_splits simp: card_remove_int)

lemma txn_count_events_inv:
  "finite (snd p) \<Longrightarrow>
   finite (snd (fold (txn_count_event value) es p)) \<and>
   fst (fold (txn_count_event value) es p)
     - int (card (snd (fold (txn_count_event value) es p)))
     = fst p - int (card (snd p))"
proof (induction es arbitrary: p)
  case Nil
  then show ?case by simp
next
  case (Cons e es)
  obtain c keys where p: "p = (c, keys)" by (cases p)
  obtain c' keys' where q: "txn_count_event value e (c, keys) = (c', keys')"
    by (cases "txn_count_event value e (c, keys)")
  from txn_count_event_inv[OF q] Cons.prems p
  have "finite keys'" "c' - int (card keys') = c - int (card keys)" by auto
  with Cons.IH[of "(c', keys')"] p q show ?case by simp
qed

lemma txn_count_loop_inv:
  "finite (snd p) \<Longrightarrow>
   finite (snd (txn_count_loop value ts p)) \<and>
   fst (txn_count_loop value ts p) - int (card (snd (txn_count_loop value ts p)))
     = fst p - int (card (snd p))"
proof (induction ts arbitrary: p)
  case Nil
  then show ?case by (simp add: txn_count_loop_def)
next
  case (Cons t ts)
  let ?q = "fold (txn_count_event value) (get_events t) p"
  from txn_count_events_inv[OF Cons.prems, of "value" "get_events t"]
  have "finite (snd ?q)" "fst ?q - int (card (snd ?q)) = fst p - int (card (snd p))"
    by auto
  with Cons.IH[of ?q] show ?case by (simp add: txn_count_loop_def)
qed

text \<open>
  Claim C10. For every state (store, counts index and transaction stack) and every value,
  \<open>txn_count\<close> returns at least \<open>count\<close>: the result is the committed count plus the
  number of keys left in \<open>keys\<close> when the loops end.
\<close>

theorem txn_count_ge_count: "count value s \<le> txn_count value s"
proof -
  let ?r = "txn_count_loop value (transactions s) (count value s, {})"
  from txn_count_loop_inv[of "(count value s, {})" "value" "transactions s"]
  have "fst ?r - int (card (snd ?r)) = count value s" by simp
  then show ?thesis by (simp add: txn_count_def)
qed

subsection \<open>Evaluating the dispatcher on concrete lines\<close>

lemmas string_defs = upper_def upper_char_def strip_def isspace_def startswith_def
  split_def quoted_def numeral_2_eq_2

lemmas store_defs = init_def get_def set_imdb_def delete_def count_def end_imdb_def

lemmas txn_defs = add_event_def txn_get_def txn_count_def txn_count_loop_def
  apply_transactions_def

lemma startswith_iff: "startswith cs p = (\<exists>r. cs = p @ r)"
proof
  assume "startswith cs p"
  then have "cs = p @ drop (length p) cs"
    by (metis append_take_drop_id startswith_def)
  then show "\<exists>r. cs = p @ r" ..
next
  assume "\<exists>r. cs = p @ r"
  then show "startswith cs p" by (auto simp: startswith_def)
qed

lemma rollback_line:
  assumes "upper (strip command) = ''ROLLBACK''"
  shows "transition command s =
           (if transactions s \<noteq> [] then Inr (s\<lparr>transactions := butlast (transactions s)\<rparr>, [])
            else Inr (s, [''>>> TRANSACTION NOT FOUND.'']))"
  using assms by (simp add: transition_def startswith_def)

lemma begin_line:
  assumes "upper (strip command) = ''BEGIN''"
  shows "transition command s = Inr (s\<lparr>transactions := transactions s @ [Transaction []]\<rparr>, [])"
  using assms by (simp add: transition_def startswith_def)

lemma commit_line:
  assumes "upper (strip command) = ''COMMIT''"
  shows "transition command s = Inr ((apply_transactions s)\<lparr>transactions := []\<rparr>, [])"
  using assms by (simp add: transition_def startswith_def)

lemma SET_not_earlier:
  assumes "startswith cs ''SET''"
  shows "cs \<noteq> ''END''" and "\<not> startswith cs ''GET''"
  using assms by (auto simp: startswith_iff)

lemma DELETE_not_earlier:
  assumes "startswith cs ''DELETE''"
  shows "cs \<noteq> ''END''" and "\<not> startswith cs ''GET''" and "\<not> startswith cs ''SET''"
  using assms by (auto simp: startswith_iff)

lemma case_two:
  "(case xs of [a, k] \<Rightarrow> f k | _ \<Rightarrow> d) = (if length xs = 2 then f (xs ! 1) else d)"
  by (auto split: list.splits)

lemma case_three:
  "(case xs of [a, k, v] \<Rightarrow> f k v | _ \<Rightarrow> d)
     = (if length xs = 3 then f (xs ! 1) (xs ! 2) else d)"
  by (auto split: list.splits)

lemma set_line:
  assumes "startswith (upper (strip command)) ''SET''"
  shows "transition command s =
           (if length (split_max 2 (strip command)) = 3 then
              (if transactions s \<noteq> [] then
                 Inr (s\<lparr>transactions := butlast (transactions s)
                        @ [add_event (SET (split_max 2 (strip command) ! 1)
                                          (split_max 2 (strip command) ! 2))
                                     (last (transactions s))]\<rparr>, [])
               else (case set_imdb (split_max 2 (strip command) ! 1)
                                   (split_max 2 (strip command) ! 2) s of
                       Inl e \<Rightarrow> Inl e
                     | Inr s' \<Rightarrow> Inr (s', [])))
            else Inr (s, [''>>> Invalid SET command: '' @ quoted command
                           @ ''. Expected format: '' @ quoted ''SET <key> <value>'']))"
  using assms SET_not_earlier[OF assms]
  by (simp add: transition_def case_three)

lemma delete_line:
  assumes "startswith (upper (strip command)) ''DELETE''"
  shows "transition command s =
           (if length (split command) = 2 then
              (if transactions s \<noteq> [] then
                 Inr (s\<lparr>transactions := butlast (transactions s)
                        @ [add_event (DELETE (split command ! 1)) (last (transactions s))]\<rparr>, [])
               else Inr (delete (split command ! 1) s, []))
            else Inr (s, [''>>> Invalid DELETE command: '' @ quoted command
                           @ ''. Expected format: '' @ quoted ''DELETE <key>'']))"
  using assms DELETE_not_earlier[OF assms]
  by (simp add: transition_def case_two)

subsection \<open>The committed store\<close>

text \<open>
  Claim C8, as amended. \<open>get\<close> returns the string \<open>NULL\<close> for an absent key and the stored
  value for a present one, so its result is \<open>NULL\<close> exactly when the key is absent or holds
  the stored value \<open>NULL\<close>; the result for an absent key differs from the result for every
  key whose stored value is not the string \<open>NULL\<close>.
\<close>

theorem get_null_iff:
  "(db s key = None \<longrightarrow> get key s = ''NULL'')
   \<and> (db s key = Some v \<longrightarrow> get key s = v)
   \<and> (get key s = ''NULL'') = (db s key = None \<or> db s key = Some ''NULL'')
   \<and> (db s key = None \<and> db s key' = Some v' \<and> v' \<noteq> ''NULL'' \<longrightarrow> get key s \<noteq> get key' s)"
  by (auto simp: get_def split: option.splits)

theorem get_null_iff_witness:
  "db (init\<lparr>db := [''a'' \<mapsto> ''5'']\<rparr>) ''b'' = None
   \<and> get ''b'' (init\<lparr>db := [''a'' \<mapsto> ''5'']\<rparr>) = ''NULL''
   \<and> db (init\<lparr>db := [''a'' \<mapsto> ''5'']\<rparr>) ''a'' = Some ''5''
   \<and> get ''a'' (init\<lparr>db := [''a'' \<mapsto> ''5'']\<rparr>) = ''5''
   \<and> ''5'' \<noteq> ''NULL''
   \<and> get ''b'' (init\<lparr>db := [''a'' \<mapsto> ''5'']\<rparr>) \<noteq> get ''a'' (init\<lparr>db := [''a'' \<mapsto> ''5'']\<rparr>)"
proof -
  let ?s = "init\<lparr>db := [''a'' \<mapsto> ''5'']\<rparr>"
  have absent: "db ?s ''b'' = None" by (simp add: init_def)
  have present: "db ?s ''a'' = Some ''5''" by (simp add: init_def)
  have other: "''5'' \<noteq> ''NULL''" by simp
  from get_null_iff[of ?s "''b''" "''5''" "''a''" "''5''"] absent
  have b: "get ''b'' ?s = ''NULL''" by blast
  from get_null_iff[of ?s "''a''" "''5''" "''b''" "''5''"] present
  have a: "get ''a'' ?s = ''5''" by blast
  from get_null_iff[of ?s "''b''" "''5''" "''a''" "''5''"] absent present other
  have d: "get ''b'' ?s \<noteq> get ''a'' ?s" by blast
  from absent b present a other d show ?thesis by (intro conjI)
qed

text \<open>
  Claim C8 as stated fails: after \<open>set('a', 'NULL')\<close> on the initial state the key \<open>a\<close> is
  present and \<open>get\<close> returns for it what it returns for the absent key \<open>b\<close>.
\<close>

theorem get_null_collision:
  "set_imdb ''a'' ''NULL'' init
     = Inr (init\<lparr>db := [''a'' \<mapsto> ''NULL''], counts := [''NULL'' \<mapsto> 1]\<rparr>)
   \<and> db (init\<lparr>db := [''a'' \<mapsto> ''NULL''], counts := [''NULL'' \<mapsto> 1]\<rparr>) ''a'' = Some ''NULL''
   \<and> db (init\<lparr>db := [''a'' \<mapsto> ''NULL''], counts := [''NULL'' \<mapsto> 1]\<rparr>) ''b'' = None
   \<and> get ''a'' (init\<lparr>db := [''a'' \<mapsto> ''NULL''], counts := [''NULL'' \<mapsto> 1]\<rparr>) = ''NULL''
   \<and> get ''b'' (init\<lparr>db := [''a'' \<mapsto> ''NULL''], counts := [''NULL'' \<mapsto> 1]\<rparr>) = ''NULL''"
  by (simp add: store_defs)

text \<open>
  A remark on \<open>set\<close> itself. Its guard \<open>if self.db.get(key):\<close> also fails for a key that
  holds the empty string, so on the direct calls \<open>set('k', '')\<close> and \<open>set('k', 'x')\<close> the
  second call skips the decrement. No command line leads to such a call: the value of a
  \<open>SET\<close> line is a part of a split, and those are never empty.
\<close>

lemma empty_value_breaks_counts:
  "set_imdb ''k'' [] init = Inr (init\<lparr>db := [''k'' \<mapsto> []], counts := [[] \<mapsto> 1]\<rparr>)
   \<and> set_imdb ''k'' ''x'' (init\<lparr>db := [''k'' \<mapsto> []], counts := [[] \<mapsto> 1]\<rparr>)
     = Inr (init\<lparr>db := [''k'' \<mapsto> ''x''], counts := [[] \<mapsto> 1, ''x'' \<mapsto> 1]\<rparr>)
   \<and> count [] (init\<lparr>db := [''k'' \<mapsto> ''x''], counts := [[] \<mapsto> 1, ''x'' \<mapsto> 1]\<rparr>) = 1
   \<and> holders [] (init\<lparr>db := [''k'' \<mapsto> ''x''], counts := [[] \<mapsto> 1, ''x'' \<mapsto> 1]\<rparr>) = {}"
  by (simp add: store_defs holders_def)

subsection \<open>Commit and the counts index\<close>

text \<open>
  Claim C1 fails on \<open>BEGIN\<close>, \<open>SET a 1\<close>, \<open>COMMIT\<close> from the initial state: the commit
  writes the entry and leaves \<open>counts\<close> empty, so \<open>count('1')\<close> is 0; the same event applied
  through \<open>set\<close> with no transaction open gives \<open>counts = {'1': 1}\<close>.
\<close>

theorem commit_leaves_counts_stale:
  "transitions [''BEGIN'', ''SET a 1'', ''COMMIT''] init
     = Inr (init\<lparr>db := [''a'' \<mapsto> ''1'']\<rparr>, [])
   \<and> count ''1'' (init\<lparr>db := [''a'' \<mapsto> ''1'']\<rparr>) = 0
   \<and> apply_direct [SET ''a'' ''1''] init
     = Inr (init\<lparr>db := [''a'' \<mapsto> ''1''], counts := [''1'' \<mapsto> 1]\<rparr>)
   \<and> transitions [''SET a 1''] init
     = Inr (init\<lparr>db := [''a'' \<mapsto> ''1''], counts := [''1'' \<mapsto> 1]\<rparr>, [])
   \<and> count ''1'' (init\<lparr>db := [''a'' \<mapsto> ''1''], counts := [''1'' \<mapsto> 1]\<rparr>) = 1"
  by (simp add: transition_def string_defs store_defs txn_defs)

text \<open>
  Claim C2 fails: on \<open>SET a 1\<close>, \<open>BEGIN\<close>, \<open>DELETE a\<close>, \<open>COUNT 1\<close> the program prints 1,
  not 0. After \<open>COMMIT\<close>, \<open>GET a\<close> does print \<open>NULL\<close>.
\<close>

theorem scenario_c_prints_one:
  "run init [''SET a 1'', ''BEGIN'', ''DELETE a'', ''COUNT 1'', ''COMMIT'', ''GET a'', ''END'']
     = ([''>>> 1'', ''>>> NULL'', ''>>> Bye!''],
        Inr \<lparr>state = Some ''END'', db = Map.empty, transactions = [], counts = [''1'' \<mapsto> 1]\<rparr>)"
  by (simp add: run_def transition_def string_defs store_defs txn_defs str_int_def str_nat.simps)

text \<open>
  Claim C5 fails: on \<open>BEGIN\<close>, \<open>SET a 1\<close>, \<open>COMMIT\<close>, \<open>SET a 2\<close> the last line raises
  \<open>KeyError('1')\<close> inside \<open>set\<close>; \<open>run\<close> prints its farewell and the exception ends the
  process, with the lines after it never read.
\<close>

theorem set_after_commit_raises:
  "run init [''BEGIN'', ''SET a 1'', ''COMMIT'', ''SET a 2'', ''GET a'', ''END'']
     = ([''>>> Bye!''], Inl (KeyError ''1''))"
  by (simp add: run_def transition_def string_defs store_defs txn_defs)

subsection \<open>Rollback\<close>

text \<open>
  Claim C9. On a \<open>ROLLBACK\<close> line with a non-empty stack, \<open>transition\<close> removes exactly the
  innermost transaction, prints nothing and changes neither \<open>db\<close> nor \<open>counts\<close>; with an
  empty stack it prints \<open>>>> TRANSACTION NOT FOUND.\<close> and returns the state unchanged.
\<close>

theorem rollback_pops_or_reports:
  assumes "upper (strip command) = ''ROLLBACK''"
  shows "(transactions s = ts @ [t] \<longrightarrow> transition command s = Inr (s\<lparr>transactions := ts\<rparr>, []))
       \<and> (transactions s = [] \<longrightarrow> transition command s = Inr (s, [''>>> TRANSACTION NOT FOUND.'']))"
  using rollback_line[OF assms, of s] by auto

theorem rollback_pops_or_reports_witness:
  "upper (strip ''ROLLBACK'') = ''ROLLBACK''
   \<and> transition ''ROLLBACK'' (init\<lparr>db := [''a'' \<mapsto> ''1''], counts := [''1'' \<mapsto> 1],
          transactions := [Transaction [], Transaction [DELETE ''a'']]\<rparr>)
       = Inr (init\<lparr>db := [''a'' \<mapsto> ''1''], counts := [''1'' \<mapsto> 1],
          transactions := [Transaction []]\<rparr>, [])
   \<and> transition ''ROLLBACK'' init = Inr (init, [''>>> TRANSACTION NOT FOUND.''])"
proof -
  have u: "upper (strip ''ROLLBACK'') = ''ROLLBACK''" by (simp add: string_defs)
  let ?s = "init\<lparr>db := [''a'' \<mapsto> ''1''], counts := [''1'' \<mapsto> 1],
          transactions := [Transaction [], Transaction [DELETE ''a'']]\<rparr>"
  from rollback_pops_or_reports[OF u, of ?s "[Transaction []]" "Transaction [DELETE ''a'']"]
       rollback_pops_or_reports[OF u, of init "[]" "Transaction []"]
  show ?thesis using u by (simp add: init_def)
qed

lemma write_in_transaction:
  assumes "is_write command" and "transactions s = ts @ [t]"
  shows "\<exists>es out. transition command s
            = Inr (s\<lparr>transactions := ts @ [Transaction (get_events t @ es)]\<rparr>, out)"
proof -
  have same: "s\<lparr>transactions := ts @ [Transaction (get_events t @ [])]\<rparr> = s"
    using assms(2) by simp
  show ?thesis
  proof (cases "startswith (upper (strip command)) ''SET''")
    case True
    show ?thesis
    proof (cases "length (split_max 2 (strip command)) = 3")
      case True
      with set_line[OF \<open>startswith (upper (strip command)) ''SET''\<close>, of s] assms(2)
      have step: "transition command s
              = Inr (s\<lparr>transactions := ts @ [Transaction (get_events t
                       @ [SET (split_max 2 (strip command) ! 1)
                              (split_max 2 (strip command) ! 2)])]\<rparr>, [])"
        by (simp add: add_event_def)
      show ?thesis by (rule exI, rule exI, rule step)
    next
      case False
      with set_line[OF \<open>startswith (upper (strip command)) ''SET''\<close>, of s] same
      have step: "transition command s
              = Inr (s\<lparr>transactions := ts @ [Transaction (get_events t @ [])]\<rparr>,
                     [''>>> Invalid SET command: '' @ quoted command
                        @ ''. Expected format: '' @ quoted ''SET <key> <value>''])"
        by simp
      show ?thesis by (rule exI, rule exI, rule step)
    qed
  next
    case False
    with assms(1) have d: "startswith (upper (strip command)) ''DELETE''"
      by (simp add: is_write_def)
    show ?thesis
    proof (cases "length (split command) = 2")
      case True
      with delete_line[OF d, of s] assms(2)
      have step: "transition command s
              = Inr (s\<lparr>transactions := ts @ [Transaction (get_events t
                       @ [DELETE (split command ! 1)])]\<rparr>, [])"
        by (simp add: add_event_def)
      show ?thesis by (rule exI, rule exI, rule step)
    next
      case False
      with delete_line[OF d, of s] same
      have step: "transition command s
              = Inr (s\<lparr>transactions := ts @ [Transaction (get_events t @ [])]\<rparr>,
                     [''>>> Invalid DELETE command: '' @ quoted command
                        @ ''. Expected format: '' @ quoted ''DELETE <key>''])"
        by simp
      show ?thesis by (rule exI, rule exI, rule step)
    qed
  qed
qed

lemma transitions_append:
  "transitions (xs @ ys) s =
     (case transitions xs s of
        Inl e \<Rightarrow> Inl e
      | Inr (s', out) \<Rightarrow>
          (case transitions ys s' of
             Inl e \<Rightarrow> Inl e
           | Inr (s'', out') \<Rightarrow> Inr (s'', out @ out')))"
  by (induction xs arbitrary: s) (auto split: sum.splits prod.splits)

lemma writes_in_transaction:
  assumes "\<forall>c \<in> set cs. is_write c" and "transactions s = ts @ [t]"
  shows "\<exists>es out. transitions cs s
            = Inr (s\<lparr>transactions := ts @ [Transaction (get_events t @ es)]\<rparr>, out)"
  using assms
proof (induction cs arbitrary: s t)
  case Nil
  have "s\<lparr>transactions := ts @ [Transaction (get_events t @ [])]\<rparr> = s"
    using Nil.prems(2) by simp
  then have "transitions [] s
               = Inr (s\<lparr>transactions := ts @ [Transaction (get_events t @ [])]\<rparr>, [])"
    by simp
  then show ?case by (intro exI)
next
  case (Cons c cs)
  from Cons.prems have "is_write c" by simp
  from write_in_transaction[OF this Cons.prems(2)] obtain es out where
    step: "transition c s = Inr (s\<lparr>transactions := ts @ [Transaction (get_events t @ es)]\<rparr>, out)"
    by (elim exE)
  let ?s' = "s\<lparr>transactions := ts @ [Transaction (get_events t @ es)]\<rparr>"
  have "transactions ?s' = ts @ [Transaction (get_events t @ es)]" by simp
  from Cons.IH[OF _ this] Cons.prems(1) obtain es' out' where
    rest: "transitions cs ?s'
             = Inr (?s'\<lparr>transactions := ts @ [Transaction (get_events (Transaction (get_events t @ es)) @ es')]\<rparr>, out')"
    by auto
  have "transitions (c # cs) s
          = Inr (s\<lparr>transactions := ts @ [Transaction (get_events t @ (es @ es'))]\<rparr>, out @ out')"
    using step rest by simp
  then show ?case by (intro exI)
qed

text \<open>
  Claim C7. From any state, \<open>BEGIN\<close>, then any lines of the \<open>SET\<close> and \<open>DELETE\<close>
  branches, then \<open>ROLLBACK\<close> raise nothing and end in the very state they started from:
  \<open>db\<close>, \<open>counts\<close> and the transaction stack are as before the \<open>BEGIN\<close>.
\<close>

theorem begin_writes_rollback:
  assumes "\<forall>c \<in> set cs. is_write c"
  shows "\<exists>out. transitions (''BEGIN'' # cs @ [''ROLLBACK'']) s = Inr (s, out)"
proof -
  have b: "upper (strip ''BEGIN'') = ''BEGIN''" by (simp add: string_defs)
  have r: "upper (strip ''ROLLBACK'') = ''ROLLBACK''" by (simp add: string_defs)
  let ?s1 = "s\<lparr>transactions := transactions s @ [Transaction []]\<rparr>"
  have "transactions ?s1 = transactions s @ [Transaction []]" by simp
  from writes_in_transaction[OF assms this] obtain es out where
    w: "transitions cs ?s1
          = Inr (?s1\<lparr>transactions := transactions s @ [Transaction (get_events (Transaction []) @ es)]\<rparr>, out)"
    by (elim exE)
  let ?s2 = "?s1\<lparr>transactions := transactions s @ [Transaction (get_events (Transaction []) @ es)]\<rparr>"
  have "transition ''ROLLBACK'' ?s2 = Inr (s, [])"
    using rollback_line[OF r, of ?s2] by simp
  with w begin_line[OF b, of s]
  have "transitions (''BEGIN'' # cs @ [''ROLLBACK'']) s = Inr (s, out)"
    by (simp add: transitions_append)
  then show ?thesis ..
qed

theorem begin_writes_rollback_witness:
  "is_write ''SET a 2'' \<and> is_write ''delete b'' \<and> is_write ''SET c''
   \<and> (\<exists>out. transitions (''BEGIN'' # [''SET a 2'', ''delete b'', ''SET c''] @ [''ROLLBACK''])
               (init\<lparr>db := [''a'' \<mapsto> ''1''], counts := [''1'' \<mapsto> 1]\<rparr>)
             = Inr (init\<lparr>db := [''a'' \<mapsto> ''1''], counts := [''1'' \<mapsto> 1]\<rparr>, out))"
proof -
  have h: "is_write ''SET a 2'' \<and> is_write ''delete b'' \<and> is_write ''SET c''"
    by (simp add: is_write_def string_defs)
  then have "\<forall>c \<in> set [''SET a 2'', ''delete b'', ''SET c'']. is_write c"
    by simp
  from h begin_writes_rollback[OF this] show ?thesis by (intro conjI) simp_all
qed

subsection \<open>Reading a key through the open transactions\<close>

lemma txn_get_events_filter:
  "txn_get_events key xs =
     (case filter (\<lambda>e. event_key e = key) xs of
        [] \<Rightarrow> None
      | e # r \<Rightarrow> Some (event_value e))"
  by (induction key xs rule: txn_get_events.induct) auto

lemma txn_get_events_append:
  "txn_get_events key (xs @ ys) =
     (case txn_get_events key xs of
        Some r \<Rightarrow> Some r
      | None \<Rightarrow> txn_get_events key ys)"
  by (induction key xs rule: txn_get_events.induct) auto

lemma txn_get_txns_concat:
  "txn_get_txns key ts = txn_get_events key (concat (map (\<lambda>t. rev (get_events t)) ts))"
  by (induction ts) (auto simp: txn_get_events_append split: option.splits)

lemma rev_chronological:
  "rev (chronological s) = concat (map (\<lambda>t. rev (get_events t)) (rev (transactions s)))"
  by (simp add: chronological_def rev_concat rev_map comp_def)

lemma latest_event_rev:
  "latest_event key es =
     (case filter (\<lambda>e. event_key e = key) (rev es) of
        [] \<Rightarrow> None
      | e # r \<Rightarrow> Some e)"
proof (cases "filter (\<lambda>e. event_key e = key) es")
  case Nil
  then show ?thesis by (simp add: latest_event_def rev_filter[symmetric])
next
  case (Cons a as)
  then have ne: "filter (\<lambda>e. event_key e = key) es \<noteq> []" by simp
  have "filter (\<lambda>e. event_key e = key) (rev es)
          = last (a # as) # rev (butlast (a # as))"
    using Cons by (metis append_butlast_last_id list.distinct(1) rev_eq_Cons_iff rev_filter rev_rev_ident)
  with Cons show ?thesis by (simp add: latest_event_def)
qed

lemma txn_get_txns_latest:
  "txn_get_txns key (rev (transactions s))
     = map_option event_value (latest_event key (chronological s))"
  by (simp add: txn_get_txns_concat rev_chronological[symmetric] txn_get_events_filter
        latest_event_rev split: list.splits)

lemma txn_get_by_latest:
  "txn_get key s =
     (case latest_event key (chronological s) of
        None \<Rightarrow> Some (get key s)
      | Some (DELETE k) \<Rightarrow> None
      | Some (SET k v) \<Rightarrow> Some v)"
  by (simp add: txn_get_def txn_get_txns_latest split: option.splits event.splits)

lemma latest_event_append:
  "latest_event key ys \<noteq> None \<Longrightarrow> latest_event key (xs @ ys) = latest_event key ys"
  by (auto simp: latest_event_def split: list.splits)

text \<open>
  Claim C4. For every state and key, \<open>txn_get\<close> returns \<open>None\<close> (which the \<open>GET\<close> branch
  prints as \<open>NULL\<close>) when the chronologically latest event about the key in the whole stack
  is a \<open>DELETE\<close>, the value \<open>v\<close> when it is a \<open>SET\<close> of \<open>v\<close>, and \<open>get(key)\<close> when no event
  is about the key. Consequently, when the inner (more recent) transactions hold an event
  about the key, the result does not depend on what outer transactions did to it.
\<close>

theorem txn_get_latest:
  "txn_get key s =
     (case latest_event key (chronological s) of
        None \<Rightarrow> Some (get key s)
      | Some (DELETE k) \<Rightarrow> None
      | Some (SET k v) \<Rightarrow> Some v)
   \<and> (latest_event key (concat (map get_events inner)) \<noteq> None \<longrightarrow>
        txn_get key (s\<lparr>transactions := outer @ inner\<rparr>)
          = txn_get key (s\<lparr>transactions := inner\<rparr>))"
proof
  show "txn_get key s =
     (case latest_event key (chronological s) of
        None \<Rightarrow> Some (get key s)
      | Some (DELETE k) \<Rightarrow> None
      | Some (SET k v) \<Rightarrow> Some v)"
    by (rule txn_get_by_latest)
next
  show "latest_event key (concat (map get_events inner)) \<noteq> None \<longrightarrow>
        txn_get key (s\<lparr>transactions := outer @ inner\<rparr>)
          = txn_get key (s\<lparr>transactions := inner\<rparr>)"
  proof
    assume h: "latest_event key (concat (map get_events inner)) \<noteq> None"
    have "latest_event key (chronological (s\<lparr>transactions := outer @ inner\<rparr>))
            = latest_event key (chronological (s\<lparr>transactions := inner\<rparr>))"
      using latest_event_append[OF h, of "concat (map get_events outer)"]
      by (simp add: chronological_def)
    moreover have "get key (s\<lparr>transactions := outer @ inner\<rparr>)
                     = get key (s\<lparr>transactions := inner\<rparr>)"
      by (simp add: get_def)
    ultimately show "txn_get key (s\<lparr>transactions := outer @ inner\<rparr>)
          = txn_get key (s\<lparr>transactions := inner\<rparr>)"
      by (simp add: txn_get_by_latest split: option.splits)
  qed
qed

theorem txn_get_latest_witness:
  "latest_event ''a'' (concat (map get_events [Transaction [SET ''b'' ''7''], Transaction [DELETE ''a'']])) \<noteq> None
   \<and> txn_get ''a'' (init\<lparr>db := [''a'' \<mapsto> ''1''],
          transactions := [Transaction [SET ''a'' ''2'']]
                          @ [Transaction [SET ''b'' ''7''], Transaction [DELETE ''a'']]\<rparr>)
       = txn_get ''a'' (init\<lparr>db := [''a'' \<mapsto> ''1''],
          transactions := [Transaction [SET ''b'' ''7''], Transaction [DELETE ''a'']]\<rparr>)
   \<and> txn_get ''a'' (init\<lparr>db := [''a'' \<mapsto> ''1''],
          transactions := [Transaction [SET ''a'' ''2'']]
                          @ [Transaction [SET ''b'' ''7''], Transaction [DELETE ''a'']]\<rparr>) = None"
proof -
  have h: "latest_event ''a'' (concat (map get_events
             [Transaction [SET ''b'' ''7''], Transaction [DELETE ''a'']])) \<noteq> None"
    by (simp add: latest_event_def)
  from h txn_get_latest[of "''a''" "init\<lparr>db := [''a'' \<mapsto> ''1'']\<rparr>"
         "[Transaction [SET ''b'' ''7''], Transaction [DELETE ''a'']]"
         "[Transaction [SET ''a'' ''2'']]"]
  show ?thesis by (simp add: txn_get_def)
qed

subsection \<open>Counting a value through the open transactions\<close>

lemma txn_count_loop_concat:
  "txn_count_loop value ts p = fold (txn_count_event value) (concat (map get_events ts)) p"
  by (induction ts arbitrary: p) (simp_all add: txn_count_loop_def)

lemma tracked_only_by_set:
  "k \<in> snd (fold (txn_count_event value) es p) \<Longrightarrow> k \<in> snd p \<or> SET k value \<in> set es"
proof (induction es arbitrary: p)
  case Nil
  then show ?case by simp
next
  case (Cons e es)
  obtain c keys where p: "p = (c, keys)" by (cases p)
  from Cons.prems have "k \<in> snd (fold (txn_count_event value) es (txn_count_event value e p))"
    by simp
  from Cons.IH[OF this]
  have "k \<in> snd (txn_count_event value e p) \<or> SET k value \<in> set es" .
  then show ?case
  proof
    assume "k \<in> snd (txn_count_event value e p)"
    then have "k \<in> snd p \<or> e = SET k value"
      using p by (cases e) (auto split: if_splits)
    then show ?thesis by auto
  next
    assume "SET k value \<in> set es"
    then show ?thesis by simp
  qed
qed

lemma overwrite_untracked:
  assumes "key \<notin> snd p" and "v2 \<noteq> value"
  shows "txn_count_event value (SET key v2) p = p"
  using assms by (cases p) simp

text \<open>
  Claim C3. Let the committed value of a key equal the target value, and let a transaction
  event overwrite the key with a different value, no earlier event of the stack having set
  the key to the target value. Then the key is not in \<open>keys\<close> when the loop reaches that
  event, and \<open>txn_count\<close> returns what it returns on the stack without the event: the
  overwrite decrements nothing.
\<close>

theorem committed_key_overwrite_not_decremented:
  assumes "db s key = Some value"
    and "v2 \<noteq> value"
    and "SET key value \<notin> set (concat (map get_events outer) @ before)"
    and "transactions s = outer @ [Transaction (before @ [SET key v2] @ after)] @ inner"
  shows "key \<notin> snd (txn_count_loop value (outer @ [Transaction before]) (count value s, {}))
       \<and> txn_count value s
           = txn_count value (s\<lparr>transactions := outer @ [Transaction (before @ after)] @ inner\<rparr>)"
proof -
  let ?step = "txn_count_event value"
  let ?pre = "concat (map get_events outer) @ before"
  let ?post = "after @ concat (map get_events inner)"
  let ?p0 = "(count value s, {}::string set)"
  have untracked: "key \<notin> snd (fold ?step ?pre ?p0)"
    using tracked_only_by_set[of key "value" ?pre ?p0] assms(3) by auto
  have "fold ?step (?pre @ [SET key v2] @ ?post) ?p0
          = fold ?step ?post (?step (SET key v2) (fold ?step ?pre ?p0))"
    by simp
  also have "\<dots> = fold ?step ?post (fold ?step ?pre ?p0)"
    using overwrite_untracked[OF untracked assms(2)] by simp
  also have "\<dots> = fold ?step (?pre @ ?post) ?p0"
    by simp
  finally have same: "fold ?step (?pre @ [SET key v2] @ ?post) ?p0 = fold ?step (?pre @ ?post) ?p0" .
  have "txn_count value s = fst (fold ?step (?pre @ [SET key v2] @ ?post) ?p0)"
    using assms(4) by (simp add: txn_count_def txn_count_loop_concat)
  moreover have "txn_count value (s\<lparr>transactions := outer @ [Transaction (before @ after)] @ inner\<rparr>)
                   = fst (fold ?step (?pre @ ?post) ?p0)"
    by (simp add: txn_count_def txn_count_loop_concat count_def)
  ultimately have "txn_count value s
           = txn_count value (s\<lparr>transactions := outer @ [Transaction (before @ after)] @ inner\<rparr>)"
    using same by simp
  moreover have "key \<notin> snd (txn_count_loop value (outer @ [Transaction before]) ?p0)"
    using untracked by (simp add: txn_count_loop_concat)
  ultimately show ?thesis by simp
qed

theorem committed_key_overwrite_not_decremented_witness:
  "db (init\<lparr>db := [''a'' \<mapsto> ''1''], counts := [''1'' \<mapsto> 1],
            transactions := [] @ [Transaction ([] @ [SET ''a'' ''2''] @ [])] @ []\<rparr>) ''a'' = Some ''1''
   \<and> ''2'' \<noteq> ''1''
   \<and> SET ''a'' ''1'' \<notin> set (concat (map get_events []) @ [])
   \<and> txn_count ''1'' (init\<lparr>db := [''a'' \<mapsto> ''1''], counts := [''1'' \<mapsto> 1],
            transactions := [] @ [Transaction ([] @ [SET ''a'' ''2''] @ [])] @ []\<rparr>)
       = txn_count ''1'' (init\<lparr>db := [''a'' \<mapsto> ''1''], counts := [''1'' \<mapsto> 1],
            transactions := [Transaction []]\<rparr>)
   \<and> txn_count ''1'' (init\<lparr>db := [''a'' \<mapsto> ''1''], counts := [''1'' \<mapsto> 1],
            transactions := [Transaction [SET ''a'' ''2'']]\<rparr>) = 1
   \<and> get ''a'' (init\<lparr>db := [''a'' \<mapsto> ''1''], counts := [''1'' \<mapsto> 1],
            transactions := [Transaction [SET ''a'' ''2'']]\<rparr>) = ''1''
   \<and> txn_get ''a'' (init\<lparr>db := [''a'' \<mapsto> ''1''], counts := [''1'' \<mapsto> 1],
            transactions := [Transaction [SET ''a'' ''2'']]\<rparr>) = Some ''2''"
proof -
  let ?s = "init\<lparr>db := [''a'' \<mapsto> ''1''], counts := [''1'' \<mapsto> 1],
            transactions := [] @ [Transaction ([] @ [SET ''a'' ''2''] @ [])] @ []\<rparr>"
  have h1: "db ?s ''a'' = Some ''1''" by (simp add: init_def)
  have h2: "''2'' \<noteq> ''1''" by simp
  have h3: "SET ''a'' ''1'' \<notin> set (concat (map get_events []) @ [])" by simp
  have h4: "transactions ?s = [] @ [Transaction ([] @ [SET ''a'' ''2''] @ [])] @ []" by simp
  from committed_key_overwrite_not_decremented[OF h1 h2 h3 h4] h1
  show ?thesis
    by (simp add: init_def txn_count_def txn_count_loop_def count_def get_def txn_get_def)
qed

subsection \<open>Splitting a line into words\<close>

text \<open>
  A split with limit \<open>n\<close> gives at most \<open>n + 1\<close> parts, so the three-way unpacking in the
  \<open>SET\<close> branch cannot fail; no part is empty; and any limit that is at least the length
  of the line gives the same parts, which is the split without a limit.
\<close>

lemma dropWhile_isspace_head:
  "dropWhile isspace cs = c # r \<Longrightarrow> \<not> isspace c"
  using hd_dropWhile[of isspace cs] by auto

lemma length_split_max: "length (split_max n cs) \<le> Suc n"
  by (induction n arbitrary: cs) (auto split: list.splits)

lemma split_max_words_nonempty: "w \<in> set (split_max n cs) \<Longrightarrow> w \<noteq> []"
proof (induction n arbitrary: cs)
  case 0
  then show ?case by (auto split: list.splits)
next
  case (Suc n)
  show ?case
  proof (cases "dropWhile isspace cs")
    case Nil
    with Suc.prems show ?thesis by simp
  next
    case (Cons c r)
    then have "\<not> isspace c" by (rule dropWhile_isspace_head)
    with Suc.prems Cons Suc.IH show ?thesis by auto
  qed
qed

lemma split_max_enough:
  "length cs \<le> n \<Longrightarrow> length cs \<le> m \<Longrightarrow> split_max n cs = split_max m cs"
proof (induction n arbitrary: m cs)
  case 0
  then show ?case by (cases m) simp_all
next
  case (Suc n)
  show ?case
  proof (cases m)
    case 0
    with Suc.prems show ?thesis by simp
  next
    case (Suc m')
    show ?thesis
    proof (cases "dropWhile isspace cs")
      case Nil
      with Suc show ?thesis by (simp del: dropWhile_eq_Nil_conv)
    next
      case (Cons c r)
      then have ns: "\<not> isspace c" by (rule dropWhile_isspace_head)
      have "length (c # r) \<le> length cs"
        using Cons length_dropWhile_le[of isspace cs] by simp
      moreover have "length (dropWhile (\<lambda>x. \<not> isspace x) (c # r)) \<le> length r"
        using ns length_dropWhile_le[of "\<lambda>x. \<not> isspace x" r] by simp
      ultimately have "length (dropWhile (\<lambda>x. \<not> isspace x) (c # r)) \<le> n"
        and "length (dropWhile (\<lambda>x. \<not> isspace x) (c # r)) \<le> m'"
        using Suc.prems Suc by auto
      from Suc.IH[OF this] Cons Suc show ?thesis by simp
    qed
  qed
qed

lemma split_words_nonempty: "w \<in> set (split cs) \<Longrightarrow> w \<noteq> []"
  unfolding split_def by (rule split_max_words_nonempty)

subsection \<open>The counts index under writes with no transaction open\<close>

text \<open>What \<open>set\<close> and \<open>delete\<close> do to the entries and to each value's count.\<close>

lemma set_imdb_Inr:
  assumes "set_imdb k v s = Inr s'"
  shows "db s' = (db s)(k \<mapsto> v)"
    and "transactions s' = transactions s"
    and "state s' = state s"
    and "dom (counts s') = insert v (dom (counts s))"
    and "count w s' = count w s - (if db s k = Some w \<and> w \<noteq> [] then 1 else 0)
                                + (if w = v then 1 else 0)"
  using assms
  by (auto simp: set_imdb_def count_def split: option.splits if_splits)

lemma set_imdb_succeeds:
  assumes "ran (db s) \<subseteq> dom (counts s)"
  shows "\<exists>s'. set_imdb k v s = Inr s'"
proof (cases "db s k")
  case None
  then show ?thesis by (simp add: set_imdb_def)
next
  case (Some old)
  then have "old \<in> ran (db s)" by (auto simp: ran_def)
  with assms obtain n where "counts s old = Some n" by auto
  with Some show ?thesis by (simp add: set_imdb_def)
qed

lemma delete_props:
  shows "db (delete k s) = (db s)(k := None)"
    and "transactions (delete k s) = transactions s"
    and "state (delete k s) = state s"
    and "dom (counts (delete k s)) = dom (counts s)"
    and "count w (delete k s)
           = count w s - (if db s k = Some w \<and> w \<in> dom (counts s) then 1 else 0)"
  by (auto simp: delete_def count_def fun_eq_iff split: option.splits if_splits)

lemma holders_update:
  "holders w (s\<lparr>db := (db s)(k \<mapsto> v)\<rparr>)
     = (if w = v then insert k (holders w s) else holders w s - {k})"
  by (auto simp: holders_def)

lemma holders_remove:
  "holders w (s\<lparr>db := (db s)(k := None)\<rparr>) = holders w s - {k}"
  by (auto simp: holders_def)

lemma holders_db_cong: "db s' = db s \<Longrightarrow> holders w s' = holders w s"
  by (simp add: holders_def)

lemma finite_holders: "finite (dom (db s)) \<Longrightarrow> finite (holders w s)"
  by (rule finite_subset[of _ "dom (db s)"]) (auto simp: holders_def)

lemma card_holders_without:
  assumes "finite (dom (db s))"
  shows "int (card (holders w s - {k}))
           = int (card (holders w s)) - (if db s k = Some w then 1 else 0)"
proof (cases "db s k = Some w")
  case True
  then have "k \<in> holders w s" by (simp add: holders_def)
  with finite_holders[OF assms, of w] True show ?thesis
    by (simp add: card_remove_int)
next
  case False
  then have "k \<notin> holders w s" by (simp add: holders_def)
  with False show ?thesis by simp
qed

lemma card_holders_with:
  assumes "finite (dom (db s))"
  shows "int (card (insert k (holders w s)))
           = int (card (holders w s)) - (if db s k = Some w then 1 else 0) + 1"
proof (cases "db s k = Some w")
  case True
  then have "k \<in> holders w s" by (simp add: holders_def)
  with True show ?thesis by (simp add: insert_absorb)
next
  case False
  then have "k \<notin> holders w s" by (simp add: holders_def)
  with finite_holders[OF assms, of w] False show ?thesis by simp
qed

lemma counts_match_set:
  assumes inv: "counts_match s" and ne: "v \<noteq> []" and res: "set_imdb k v s = Inr s'"
  shows "counts_match s'"
proof -
  from inv have fin: "finite (dom (db s))"
    and cnt: "\<And>w. count w s = int (card (holders w s))"
    and sub: "ran (db s) \<subseteq> dom (counts s)"
    and nonempty: "[] \<notin> ran (db s)"
    by (simp_all add: counts_match_def)
  note r = set_imdb_Inr[OF res]
  have h: "\<And>w. holders w s' = (if w = v then insert k (holders w s) else holders w s - {k})"
    using holders_update[of _ s k v] r(1) by (simp add: holders_def)
  have no_empty_old: "\<And>w. db s k = Some w \<Longrightarrow> w \<noteq> []"
    using nonempty by (auto simp: ran_def)
  have "finite (dom (db s'))" using fin r(1) by simp
  moreover have "count w s' = int (card (holders w s'))" for w
  proof (cases "w = v")
    case True
    with r(5)[of w] cnt[of w] h[of w] card_holders_with[OF fin, of k w] ne
    show ?thesis by auto
  next
    case False
    with r(5)[of w] cnt[of w] h[of w] card_holders_without[OF fin, of w k] no_empty_old[of w]
    show ?thesis by auto
  qed
  moreover have "ran (db s') \<subseteq> dom (counts s')"
  proof
    fix x assume "x \<in> ran (db s')"
    then obtain a where "db s' a = Some x" by (auto simp: ran_def)
    with r(1) have "x = v \<or> x \<in> ran (db s)" by (auto simp: ran_def split: if_splits)
    with sub r(4) show "x \<in> dom (counts s')" by auto
  qed
  moreover have "[] \<notin> ran (db s')"
  proof
    assume "[] \<in> ran (db s')"
    then obtain a where "db s' a = Some []" by (auto simp: ran_def)
    with r(1) ne have "db s a = Some []" by (auto split: if_splits)
    with nonempty show False by (auto simp: ran_def)
  qed
  ultimately show ?thesis by (simp add: counts_match_def)
qed

lemma counts_match_delete:
  assumes inv: "counts_match s"
  shows "counts_match (delete k s)"
proof -
  from inv have fin: "finite (dom (db s))"
    and cnt: "\<And>w. count w s = int (card (holders w s))"
    and sub: "ran (db s) \<subseteq> dom (counts s)"
    and nonempty: "[] \<notin> ran (db s)"
    by (simp_all add: counts_match_def)
  note r = delete_props[where k=k and s=s]
  have h: "\<And>w. holders w (delete k s) = holders w s - {k}"
    using r(1) by (auto simp: holders_def)
  have covered: "\<And>w. db s k = Some w \<Longrightarrow> w \<in> dom (counts s)"
    using sub by (auto simp: ran_def)
  have "finite (dom (db (delete k s)))" using fin r(1) by simp
  moreover have "count w (delete k s) = int (card (holders w (delete k s)))" for w
    using r(5)[where w=w] cnt[of w] h[of w] card_holders_without[OF fin, of w k] covered[of w]
    by auto
  moreover have "ran (db (delete k s)) \<subseteq> dom (counts (delete k s))"
  proof
    fix x assume "x \<in> ran (db (delete k s))"
    then obtain a where "db (delete k s) a = Some x" by (auto simp: ran_def)
    with r(1) have "x \<in> ran (db s)" by (auto simp: ran_def split: if_splits)
    with sub r(4) show "x \<in> dom (counts (delete k s))" by auto
  qed
  moreover have "[] \<notin> ran (db (delete k s))"
  proof
    assume "[] \<in> ran (db (delete k s))"
    then obtain a where "db (delete k s) a = Some []" by (auto simp: ran_def)
    with r(1) have "db s a = Some []" by (auto split: if_splits)
    with nonempty show False by (auto simp: ran_def)
  qed
  ultimately show ?thesis by (simp add: counts_match_def)
qed

lemma counts_match_init: "counts_match init"
  by (simp add: counts_match_def init_def count_def holders_def)

text \<open>
  Through \<open>set\<close> and \<open>delete\<close> the index stays right as long as no empty string is stored.
  The dispatcher stores none: the value of a \<open>SET\<close> line is a part of a split. So after any
  lines of the \<open>SET\<close> and \<open>DELETE\<close> branches from the initial state, every count is the
  number of keys holding the value.
\<close>

lemma apply_direct_counts_match:
  assumes "counts_match s" and "\<forall>k v. SET k v \<in> set es \<longrightarrow> v \<noteq> []"
  shows "\<exists>s'. apply_direct es s = Inr s' \<and> counts_match s'"
  using assms
proof (induction es s rule: apply_direct.induct)
  case (1 s)
  then show ?case by simp
next
  case (2 key "value" es s)
  from "2.prems"(1) have "ran (db s) \<subseteq> dom (counts s)" by (simp add: counts_match_def)
  from set_imdb_succeeds[OF this] obtain s1 where s1: "set_imdb key value s = Inr s1"
    by blast
  have "value \<noteq> []" using "2.prems"(2) by auto
  from counts_match_set[OF "2.prems"(1) this s1] have inv1: "counts_match s1" .
  have "\<forall>k v. SET k v \<in> set es \<longrightarrow> v \<noteq> []" using "2.prems"(2) by auto
  from "2.IH"[OF s1 inv1 this] s1 show ?case by simp
next
  case (3 key es s)
  from counts_match_delete[OF "3.prems"(1)] have inv1: "counts_match (delete key s)" .
  have "\<forall>k v. SET k v \<in> set es \<longrightarrow> v \<noteq> []" using "3.prems"(2) by auto
  from "3.IH"[OF inv1 this] show ?case by simp
qed

lemma direct_write_counts_match:
  assumes w: "is_write command" and inv: "counts_match s" and no_txn: "transactions s = []"
  shows "\<exists>s' out. transition command s = Inr (s', out)
                   \<and> counts_match s' \<and> transactions s' = []"
proof (cases "startswith (upper (strip command)) ''SET''")
  case True
  let ?parts = "split_max 2 (strip command)"
  show ?thesis
  proof (cases "length ?parts = 3")
    case three: True
    then have "?parts ! 2 \<in> set ?parts" by simp
    then have ne: "?parts ! 2 \<noteq> []" by (rule split_max_words_nonempty)
    from inv have "ran (db s) \<subseteq> dom (counts s)" by (simp add: counts_match_def)
    from set_imdb_succeeds[OF this] obtain s1 where
      s1: "set_imdb (?parts ! 1) (?parts ! 2) s = Inr s1" by blast
    have "transition command s = Inr (s1, [])"
      using set_line[OF True, of s] three no_txn s1 by simp
    moreover have "counts_match s1" by (rule counts_match_set[OF inv ne s1])
    moreover have "transactions s1 = []" using set_imdb_Inr(2)[OF s1] no_txn by simp
    ultimately show ?thesis by blast
  next
    case False
    with set_line[OF True, of s] inv no_txn show ?thesis by auto
  qed
next
  case False
  with w have d: "startswith (upper (strip command)) ''DELETE''"
    by (simp add: is_write_def)
  show ?thesis
  proof (cases "length (split command) = 2")
    case True
    then have "transition command s = Inr (delete (split command ! 1) s, [])"
      using delete_line[OF d, of s] no_txn by simp
    moreover have "counts_match (delete (split command ! 1) s)"
      by (rule counts_match_delete[OF inv])
    moreover have "transactions (delete (split command ! 1) s) = []"
      using no_txn by (simp add: delete_props)
    ultimately show ?thesis by blast
  next
    case False
    with delete_line[OF d, of s] inv no_txn show ?thesis by auto
  qed
qed

lemma direct_writes_counts_match:
  assumes "\<forall>c \<in> set cs. is_write c" and "counts_match s" and "transactions s = []"
  shows "\<exists>s' out. transitions cs s = Inr (s', out)
                   \<and> counts_match s' \<and> transactions s' = []"
  using assms
proof (induction cs arbitrary: s)
  case Nil
  then show ?case by simp
next
  case (Cons c cs)
  from Cons.prems(1) have "is_write c" by simp
  from direct_write_counts_match[OF this Cons.prems(2,3)] obtain s1 out1 where
    s1: "transition c s = Inr (s1, out1)" "counts_match s1" "transactions s1 = []"
    by blast
  from Cons.IH[OF _ s1(2,3)] Cons.prems(1) obtain s2 out2 where
    s2: "transitions cs s1 = Inr (s2, out2)" "counts_match s2" "transactions s2 = []"
    by auto
  from s1(1) s2(1) have "transitions (c # cs) s = Inr (s2, out1 @ out2)" by simp
  with s2(2,3) show ?case by blast
qed

text \<open>
  Claim C6. Starting from the initial (empty) state, after any sequence of lines of the
  \<open>SET\<close> and \<open>DELETE\<close> branches, which with no transaction open are applied at once
  through \<open>set\<close> and \<open>delete\<close>, nothing has been raised and for every value \<open>v\<close> the result
  of \<open>count(v)\<close> is the number of keys whose committed value is \<open>v\<close>, a finite set. A value
  that no key holds may be absent from \<open>counts\<close> or present with 0: \<open>count\<close> gives 0 for both.
\<close>

theorem direct_commands_keep_counts:
  assumes "\<forall>c \<in> set cs. is_write c"
  shows "\<exists>s' out. transitions cs init = Inr (s', out)
                   \<and> transactions s' = []
                   \<and> (\<forall>v. finite (holders v s') \<and> count v s' = int (card (holders v s')))"
proof -
  have "transactions init = []" by (simp add: init_def)
  from direct_writes_counts_match[OF assms counts_match_init this] obtain s' out where
    r: "transitions cs init = Inr (s', out)" "counts_match s'" "transactions s' = []"
    by blast
  from r(2) have "finite (dom (db s'))" and "\<forall>v. count v s' = int (card (holders v s'))"
    by (simp_all add: counts_match_def)
  with finite_holders[of s'] have "\<forall>v. finite (holders v s') \<and> count v s' = int (card (holders v s'))"
    by simp
  with r(1,3) show ?thesis by blast
qed

theorem direct_commands_keep_counts_witness:
  "is_write ''SET a 5'' \<and> is_write ''SET b 6'' \<and> is_write ''set c 6''
   \<and> is_write ''DELETE a'' \<and> is_write ''SET b''
   \<and> (\<exists>s' out. transitions [''SET a 5'', ''SET b 6'', ''set c 6'', ''DELETE a'', ''SET b''] init
                    = Inr (s', out)
                 \<and> transactions s' = []
                 \<and> (\<forall>v. finite (holders v s') \<and> count v s' = int (card (holders v s'))))"
proof -
  have h: "is_write ''SET a 5'' \<and> is_write ''SET b 6'' \<and> is_write ''set c 6''
           \<and> is_write ''DELETE a'' \<and> is_write ''SET b''"
    by (simp add: is_write_def string_defs)
  then have "\<forall>c \<in> set [''SET a 5'', ''SET b 6'', ''set c 6'', ''DELETE a'', ''SET b'']. is_write c"
    by simp
  from h direct_commands_keep_counts[OF this] show ?thesis by (intro conjI) simp_all
qed

lemma direct_nonempty_values_keep_counts:
  assumes "\<forall>k v. SET k v \<in> set es \<longrightarrow> v \<noteq> []"
  shows "\<exists>s'. apply_direct es init = Inr s'
              \<and> (\<forall>v. count v s' = int (card (holders v s')))"
proof -
  from apply_direct_counts_match[OF counts_match_init assms] obtain s' where
    "apply_direct es init = Inr s'" "counts_match s'" by blast
  then show ?thesis by (auto simp: counts_match_def)
qed

subsection \<open>What a commit does to the store\<close>

text \<open>
  A commit leaves \<open>counts\<close> as it was. Its entries are those that applying the events in
  chronological order through \<open>set\<close> and \<open>delete\<close> gives, whenever that raises nothing.
\<close>

lemma apply_event_keeps:
  "counts (apply_event e s) = counts s"
  "transactions (apply_event e s) = transactions s"
  "state (apply_event e s) = state s"
  by (cases e; simp)+

lemma fold_apply_event_keeps:
  "counts (fold apply_event es s) = counts s
   \<and> transactions (fold apply_event es s) = transactions s
   \<and> state (fold apply_event es s) = state s"
  by (induction es arbitrary: s) (simp_all add: apply_event_keeps)

lemma apply_transactions_chronological:
  "apply_transactions s = fold apply_event (chronological s) s"
proof -
  have "fold (\<lambda>t. fold apply_event (get_events t)) ts a
          = fold apply_event (concat (map get_events ts)) a" for ts a
    by (induction ts arbitrary: a) simp_all
  then show ?thesis by (simp add: apply_transactions_def chronological_def)
qed

lemma commit_keeps_counts: "counts (apply_transactions s) = counts s"
  by (simp add: apply_transactions_chronological fold_apply_event_keeps)

lemma apply_event_db:
  "db (apply_event (SET k v) s) = (db s)(k \<mapsto> v)"
  "db (apply_event (DELETE k) s) = (db s)(k := None)"
  by (auto simp: fun_eq_iff)

lemma fold_apply_event_db:
  assumes "apply_direct es a = Inr a'" and "db b = db a"
  shows "db (fold apply_event es b) = db a'"
  using assms
proof (induction es a arbitrary: b rule: apply_direct.induct)
  case (1 s)
  then show ?case by simp
next
  case (2 key "value" es s)
  from "2.prems"(1) obtain s1 where s1: "set_imdb key value s = Inr s1"
    and rest: "apply_direct es s1 = Inr a'"
    by (auto split: sum.splits)
  have "db (apply_event (SET key value) b) = db s1"
    using set_imdb_Inr(1)[OF s1] "2.prems"(2) by (simp add: apply_event_db)
  from "2.IH"[OF s1 rest this] show ?case by simp
next
  case (3 key es s)
  have "db (apply_event (DELETE key) b) = db (delete key s)"
    using "3.prems"(2) by (simp add: apply_event_db(2) delete_props(1))
  from "3.IH"[OF _ this] "3.prems"(1) show ?case by simp
qed

lemma commit_entries_as_direct:
  assumes "apply_direct (chronological s) (s\<lparr>transactions := []\<rparr>) = Inr s'"
  shows "db (apply_transactions s) = db s'"
  using fold_apply_event_db[OF assms, of s]
  by (simp add: apply_transactions_chronological)

subsection \<open>Exceptions and reports of the dispatcher\<close>

text \<open>
  The only exception of \<open>transition\<close> is the \<open>KeyError\<close> of \<open>set\<close> with no transaction
  open, for a key whose stored value is not a key of \<open>counts\<close>. Whenever \<open>transition\<close>
  prints, which covers every report of a malformed or unknown line and of a rollback with
  nothing open, it returns the state unchanged.
\<close>

lemma set_imdb_Inl:
  assumes "set_imdb k v s = Inl e"
  shows "\<exists>old. e = KeyError old \<and> db s k = Some old \<and> old \<noteq> [] \<and> counts s old = None"
  using assms by (auto simp: set_imdb_def split: option.splits if_splits)

lemma transition_raises:
  assumes "transition command s = Inl e"
  shows "transactions s = []
       \<and> (\<exists>key old. e = KeyError old \<and> db s key = Some old \<and> counts s old = None)"
proof -
  from assms obtain k v where "transactions s = []" and "set_imdb k v s = Inl e"
    unfolding transition_def
    by (auto split: if_splits list.splits option.splits sum.splits)
  with set_imdb_Inl[of k v s e] show ?thesis by blast
qed

lemma transition_prints_unchanged:
  assumes "transition command s = Inr (s', out)" and "out \<noteq> []"
  shows "s' = s"
  using assms unfolding transition_def
  by (auto split: if_splits list.splits option.splits sum.splits)

lemma transition_never_raises_when_covered:
  assumes "ran (db s) \<subseteq> dom (counts s)"
  shows "\<exists>s' out. transition command s = Inr (s', out)"
proof (cases "transition command s")
  case (Inl e)
  from transition_raises[OF Inl] obtain key old where
    "db s key = Some old" "counts s old = None" by blast
  then have "old \<in> ran (db s)" "old \<notin> dom (counts s)" by (auto simp: ran_def)
  with assms show ?thesis by auto
next
  case (Inr r)
  then show ?thesis by (cases r) simp
qed

end
